theory Spec2Isabelle
  imports Main "HOL-Library.AList"
begin

section \<open>Data model of \<open>lightbulb/internal/di.py\<close>\<close>

text \<open>
  Python objects that the module only passes around (arguments, receivers, resolved
  dependencies) are values of an arbitrary type \<open>'v\<close>, extended with Python's \<open>None\<close>,
  which the module tests for (\<open>instance is not None\<close>, \<open>self._self is not None\<close>).
\<close>

datatype 'v pyobj = PyNone | Obj 'v

text \<open>
  Exceptions. The module raises one itself (\<open>RuntimeError\<close> with a fixed message);
  everything else is raised by \<open>inspect.signature\<close>, by the container or by the wrapped
  callable and only passes through.
\<close>

datatype 'x exn = RuntimeError string | Raised 'x

text \<open>
  \<open>inspect.Parameter\<close>: the five parameter kinds, and per parameter its name, kind,
  default and annotation. \<open>None\<close> in the last two fields is the sentinel
  \<open>inspect.Parameter.empty\<close>; annotations are values of an arbitrary type \<open>'t\<close>.
\<close>

datatype kind =
  POSITIONAL_ONLY | POSITIONAL_OR_KEYWORD | VAR_POSITIONAL | KEYWORD_ONLY | VAR_KEYWORD

record ('t, 'v) parameter =
  name :: string
  kind :: kind
  default :: "'v pyobj option"
  annotation :: "'t option"

text \<open>
  A Python \<open>dict\<close> keeps insertion order, and \<open>d[k] = v\<close> on a key already present
  replaces the value in place: an association list under \<open>AList.update\<close>.
  \<open>dict.update\<close> stores the items of the other dictionary one by one.
\<close>

type_synonym ('k, 'a) dict = "('k \<times> 'a) list"

definition dict_update :: "('k, 'a) dict \<Rightarrow> ('k, 'a) dict \<Rightarrow> ('k, 'a) dict" where
  "dict_update d other = foldl (\<lambda>acc (k, v). AList.update k v acc) d other"

definition keys :: "('k, 'a) dict \<Rightarrow> 'k set" where
  "keys d = set (map fst d)"

text \<open>
  A callable, as far as this module touches it. Its \<open>signature\<close> is what
  \<open>inspect.signature(func, eval_str=True).parameters\<close> yields when it is called with the
  world outside this module in a given state \<open>'s\<close>: the parameters in declaration
  order, or the exception raised when the signature cannot be built or an annotation
  cannot be evaluated. It depends on that state because string annotations are evaluated
  anew on every call, in the namespace of the callable's module, which other code may
  change; evaluating them is taken to read that state, not to change it. Its \<open>body\<close>
  is what awaiting a call of it does to the state and returns.
\<close>

record ('t, 'v, 'x, 's) callable =
  signature :: "'s \<Rightarrow> 'x exn + ('t, 'v) parameter list"
  body :: "'v pyobj list \<Rightarrow> (string, 'v pyobj) dict \<Rightarrow> 's \<Rightarrow> ('x exn + 'v pyobj) \<times> 's"

text \<open>\<open>svcs.Container\<close>: only its \<open>aget\<close> coroutine is used.\<close>

record ('t, 'v, 'x, 's) container =
  aget :: "'t \<Rightarrow> 's \<Rightarrow> ('x exn + 'v pyobj) \<times> 's"

text \<open>An instance of \<open>LazyInjecting\<close>: the slots \<open>_func\<close> and \<open>_self\<close>.\<close>

record ('t, 'v, 'x, 's) LazyInjecting =
  func :: "('t, 'v, 'x, 's) callable"
  bound_self :: "'v pyobj"

text \<open>
  Calls that leave the module, in the order they are made: a lookup in the container
  with the type asked for, and the call of the wrapped callable with its arguments.
\<close>

datatype ('t, 'v) event =
  Aget 't
| Invoke "'v pyobj list" "(string, 'v pyobj) dict"

text \<open>
  The state the module runs in: the \<open>LazyInjecting\<close> objects allocated so far (a
  reference is an index into \<open>heap\<close>), the value of the context variable
  \<open>_di_container\<close> in the current context (\<open>None\<close> when it was never set), the state of
  the outside world, and the calls made so far.
\<close>

type_synonym ref = nat

record ('t, 'v, 'x, 's) state =
  heap :: "('t, 'v, 'x, 's) LazyInjecting list"
  di_container :: "('t, 'v, 'x, 's) container option"
  store :: 's
  trace :: "('t, 'v) event list"

definition deref :: "'a list \<Rightarrow> ref \<Rightarrow> 'a option" where
  "deref h r = (if r < length h then Some (h ! r) else None)"

section \<open>\<open>find_injectable_kwargs\<close>\<close>

text \<open>
  The slice \<open>xs[n:]\<close> for a Python integer \<open>n\<close>: a negative start counts from the end,
  and the start is clamped to the list.
\<close>

definition slice_from :: "'a list \<Rightarrow> int \<Rightarrow> 'a list" where
  "slice_from xs n =
     (if n < 0 then drop (nat (max (int (length xs) + n) 0)) xs else drop (nat n) xs)"

text \<open>The body of the \<open>for\<close> loop, with \<open>injectable_parameters\<close> as accumulator.\<close>

fun collect ::
  "('t, 'v) parameter list \<Rightarrow> string set \<Rightarrow> (string, 't) dict \<Rightarrow> (string, 't) dict" where
  "collect [] passed_kwargs injectable_parameters = injectable_parameters"
| "collect (p # ps) passed_kwargs injectable_parameters =
     (case annotation p of
        None \<Rightarrow> collect ps passed_kwargs injectable_parameters
      | Some ty \<Rightarrow>
          if default p \<noteq> None \<or> kind p = POSITIONAL_ONLY \<or> name p \<in> passed_kwargs
          then collect ps passed_kwargs injectable_parameters
          else collect ps passed_kwargs (AList.update (name p) ty injectable_parameters))"

text \<open>
  The function itself; its last argument is the state of the outside world at the time
  of the call, in which \<open>inspect.signature\<close> evaluates the annotations.
\<close>

definition find_injectable_kwargs ::
  "('t, 'v, 'x, 's) callable \<Rightarrow> int \<Rightarrow> string set \<Rightarrow> 's
     \<Rightarrow> 'x exn + (string, 't) dict" where
  "find_injectable_kwargs f passed_args passed_kwargs st =
     (case signature f st of
        Inl e \<Rightarrow> Inl e
      | Inr parameters \<Rightarrow> Inr (collect (slice_from parameters passed_args) passed_kwargs []))"

section \<open>\<open>LazyInjecting\<close>\<close>

text \<open>\<open>__init__\<close>, together with the allocation of the new object.\<close>

definition LazyInjecting_init ::
  "('t, 'v, 'x, 's) callable \<Rightarrow> 'v pyobj \<Rightarrow> ('t, 'v, 'x, 's) state
     \<Rightarrow> ref \<times> ('t, 'v, 'x, 's) state" where
  "LazyInjecting_init f receiver s =
     (length (heap s), s\<lparr>heap := heap s @ [\<lparr>func = f, bound_self = receiver\<rparr>]\<rparr>)"

text \<open>
  \<open>__get__\<close>. The methods take \<open>self\<close> as a reference; the result is \<open>None\<close> only for
  a reference that denotes no object of the heap, which no Python program can hold.
\<close>

definition LazyInjecting_get ::
  "ref \<Rightarrow> 'v pyobj \<Rightarrow> 'v pyobj \<Rightarrow> ('t, 'v, 'x, 's) state
     \<Rightarrow> (ref \<times> ('t, 'v, 'x, 's) state) option" where
  "LazyInjecting_get self instance owner s =
     (case deref (heap s) self of
        None \<Rightarrow> None
      | Some w \<Rightarrow>
          Some (if instance \<noteq> PyNone then LazyInjecting_init (func w) instance s
                else (self, s)))"

text \<open>\<open>await di_container.aget(type)\<close> and \<open>await self._func(...)\<close>.\<close>

definition await_aget ::
  "('t, 'v, 'x, 's) container \<Rightarrow> 't \<Rightarrow> ('t, 'v, 'x, 's) state
     \<Rightarrow> ('x exn + 'v pyobj) \<times> ('t, 'v, 'x, 's) state" where
  "await_aget c ty s =
     (case aget c ty (store s) of
        (r, st) \<Rightarrow> (r, s\<lparr>store := st, trace := trace s @ [Aget ty]\<rparr>))"

definition await_func ::
  "('t, 'v, 'x, 's) callable \<Rightarrow> 'v pyobj list \<Rightarrow> (string, 'v pyobj) dict
     \<Rightarrow> ('t, 'v, 'x, 's) state \<Rightarrow> ('x exn + 'v pyobj) \<times> ('t, 'v, 'x, 's) state" where
  "await_func f args kwargs s =
     (case body f args kwargs (store s) of
        (r, st) \<Rightarrow> (r, s\<lparr>store := st, trace := trace s @ [Invoke args kwargs]\<rparr>))"

text \<open>The loop \<open>for name, type in injectables.items()\<close> of \<open>__call__\<close>.\<close>

fun resolve ::
  "('t, 'v, 'x, 's) container \<Rightarrow> (string, 't) dict \<Rightarrow> (string, 'v pyobj) dict
     \<Rightarrow> ('t, 'v, 'x, 's) state
     \<Rightarrow> ('x exn + (string, 'v pyobj) dict) \<times> ('t, 'v, 'x, 's) state" where
  "resolve c [] new_kwargs s = (Inr new_kwargs, s)"
| "resolve c ((n, ty) # injectables) new_kwargs s =
     (case await_aget c ty s of
        (Inl e, s') \<Rightarrow> (Inl e, s')
      | (Inr v, s') \<Rightarrow> resolve c injectables (AList.update n v new_kwargs) s')"

definition no_client :: string where
  "no_client = ''cannot prepare dependency injection as client not yet populated''"

definition LazyInjecting_call ::
  "ref \<Rightarrow> 'v pyobj list \<Rightarrow> (string, 'v pyobj) dict \<Rightarrow> ('t, 'v, 'x, 's) state
     \<Rightarrow> (('x exn + 'v pyobj) \<times> ('t, 'v, 'x, 's) state) option" where
  "LazyInjecting_call self args kwargs s =
     (case deref (heap s) self of
        None \<Rightarrow> None
      | Some w \<Rightarrow>
          Some
            (let new_kwargs = dict_update [] kwargs in
             case di_container s of
               None \<Rightarrow> (Inl (RuntimeError no_client), s)
             | Some c \<Rightarrow>
                 (case find_injectable_kwargs (func w)
                         (int (length args) + (if bound_self w \<noteq> PyNone then 1 else 0))
                         (keys kwargs) (store s) of
                    Inl e \<Rightarrow> (Inl e, s)
                  | Inr injectables \<Rightarrow>
                      (case resolve c injectables new_kwargs s of
                         (Inl e, s') \<Rightarrow> (Inl e, s')
                       | (Inr new_kwargs', s') \<Rightarrow>
                           if bound_self w \<noteq> PyNone
                           then await_func (func w) (bound_self w # args) new_kwargs' s'
                           else await_func (func w) args new_kwargs' s'))))"

section \<open>Disabling dependency injection\<close>

text \<open>
  \<open>str.lower\<close> on the characters that matter for the comparison with \<open>"true"\<close>: the
  ASCII capitals go to their small letters, every other byte stays. (No character
  outside ASCII has \<open>t\<close>, \<open>r\<close>, \<open>u\<close> or \<open>e\<close> as its lower case.)
\<close>

definition lower_char :: "char \<Rightarrow> char" where
  "lower_char c =
     (let n = (of_char c :: nat) in if 65 \<le> n \<and> n \<le> 90 then char_of (n + 32) else c)"

definition lower :: "string \<Rightarrow> string" where
  "lower s = map lower_char s"

text \<open>
  The module-level test \<open>os.environ.get("LIGHTBULB_DI_DISABLED", "false").lower() == "true"\<close>,
  on the environment found when the module is loaded.
\<close>

definition di_disabled :: "(string \<rightharpoonup> string) \<Rightarrow> bool" where
  "di_disabled environ =
     (lower (case environ ''LIGHTBULB_DI_DISABLED'' of None \<Rightarrow> ''false'' | Some v \<Rightarrow> v)
        = ''true'')"

text \<open>\<open>FakeLazyInjecting.__new__\<close>: the result is \<open>func\<close>, whatever else is passed.\<close>

definition FakeLazyInjecting_new ::
  "('t, 'v, 'x, 's) callable \<Rightarrow> 'v pyobj \<Rightarrow> ('t, 'v, 'x, 's) callable" where
  "FakeLazyInjecting_new f receiver = f"

text \<open>
  What the name \<open>LazyInjecting\<close> is bound to once the module is loaded, applied to
  \<open>func\<close> and \<open>self_\<close>: either the callable that was passed in, or a reference to a
  new wrapper object.
\<close>

datatype ('t, 'v, 'x, 's) constructed =
  Callable "('t, 'v, 'x, 's) callable"
| Wrapper ref

definition LazyInjecting_new ::
  "(string \<rightharpoonup> string) \<Rightarrow> ('t, 'v, 'x, 's) callable \<Rightarrow> 'v pyobj \<Rightarrow> ('t, 'v, 'x, 's) state
     \<Rightarrow> ('t, 'v, 'x, 's) constructed \<times> ('t, 'v, 'x, 's) state" where
  "LazyInjecting_new environ f receiver s =
     (if di_disabled environ then (Callable (FakeLazyInjecting_new f receiver), s)
      else (case LazyInjecting_init f receiver s of (r, s') \<Rightarrow> (Wrapper r, s')))"

section \<open>Notions of the specification\<close>

text \<open>
  A parameter qualifies for injection when it carries a type annotation, has no default
  value, is not positional-only and was not supplied by keyword.
\<close>

definition injectable :: "string set \<Rightarrow> ('t, 'v) parameter \<Rightarrow> bool" where
  "injectable K p \<longleftrightarrow>
     annotation p \<noteq> None \<and> default p = None \<and> kind p \<noteq> POSITIONAL_ONLY \<and> name p \<notin> K"

text \<open>The entry a qualifying parameter contributes: its name with its annotation.\<close>

definition item :: "string set \<Rightarrow> ('t, 'v) parameter \<Rightarrow> (string \<times> 't) option" where
  "item K p = (if injectable K p then map_option (Pair (name p)) (annotation p) else None)"

text \<open>The qualifying parameters of a parameter list, in declaration order.\<close>

definition injectable_items :: "string set \<Rightarrow> ('t, 'v) parameter list \<Rightarrow> (string, 't) dict" where
  "injectable_items K ps = List.map_filter (item K) ps"

text \<open>
  Looking the types of a list up one after another: each lookup starts in the store the
  one before has left, and the first failing lookup ends the run with its exception.
\<close>

fun aget_all ::
  "('t, 'v, 'x, 's) container \<Rightarrow> 't list \<Rightarrow> 's \<Rightarrow> ('x exn + 'v pyobj list) \<times> 's" where
  "aget_all c [] st = (Inr [], st)"
| "aget_all c (ty # tys) st =
     (case aget c ty st of
        (Inl e, st') \<Rightarrow> (Inl e, st')
      | (Inr v, st') \<Rightarrow>
          (case aget_all c tys st' of
             (Inl e, st'') \<Rightarrow> (Inl e, st'')
           | (Inr vs, st'') \<Rightarrow> (Inr (v # vs), st'')))"

text \<open>
  What a trace shows: the types asked of the container, and the calls of the wrapped
  callable with their arguments, each in the order of the trace.
\<close>

fun requested :: "('t, 'v) event list \<Rightarrow> 't list" where
  "requested [] = []"
| "requested (Aget ty # es) = ty # requested es"
| "requested (Invoke args kwargs # es) = requested es"

fun invocations :: "('t, 'v) event list \<Rightarrow> ('v pyobj list \<times> (string, 'v pyobj) dict) list" where
  "invocations [] = []"
| "invocations (Aget ty # es) = invocations es"
| "invocations (Invoke args kwargs # es) = (args, kwargs) # invocations es"

text \<open>
  A value of the flag that equals \<open>"true"\<close> when the case of its letters is ignored.
\<close>

definition true_ignoring_case :: "string \<Rightarrow> bool" where
  "true_ignoring_case v \<longleftrightarrow>
     list_all2 (\<lambda>c cs. c \<in> set cs) v [''tT'', ''rR'', ''uU'', ''eE'']"

section \<open>Examples\<close>

text \<open>
  The callable \<open>f(a: int, b: str = "x", c: Widget)\<close>; calling it counts up the store
  and returns the number of keyword arguments it got.
\<close>

definition example_parameters :: "(string, nat) parameter list" where
  "example_parameters =
     [\<lparr>name = ''a'', kind = POSITIONAL_OR_KEYWORD, default = None, annotation = Some ''int''\<rparr>,
      \<lparr>name = ''b'', kind = POSITIONAL_OR_KEYWORD, default = Some (Obj 0),
        annotation = Some ''str''\<rparr>,
      \<lparr>name = ''c'', kind = POSITIONAL_OR_KEYWORD, default = None,
        annotation = Some ''Widget''\<rparr>]"

definition example_func :: "(string, nat, string, nat) callable" where
  "example_func =
     \<lparr>signature = (\<lambda>st. Inr example_parameters),
      body = (\<lambda>args kwargs st. (Inr (Obj (length kwargs)), Suc st))\<rparr>"

text \<open>
  A method \<open>m(self: Plugin, dep: Widget)\<close>, which returns the number of positional
  arguments it got, and a callable whose signature cannot be built.
\<close>

definition example_method :: "(string, nat, string, nat) callable" where
  "example_method =
     \<lparr>signature = (\<lambda>st. Inr
        [\<lparr>name = ''self'', kind = POSITIONAL_OR_KEYWORD, default = None,
          annotation = Some ''Plugin''\<rparr>,
         \<lparr>name = ''dep'', kind = POSITIONAL_OR_KEYWORD, default = None,
          annotation = Some ''Widget''\<rparr>]),
      body = (\<lambda>args kwargs st. (Inr (Obj (length args)), Suc st))\<rparr>"

definition broken_func :: "(string, nat, string, nat) callable" where
  "broken_func =
     \<lparr>signature = (\<lambda>st. Inl (Raised ''NameError'')),
      body = (\<lambda>args kwargs st. (Inr PyNone, Suc st))\<rparr>"

text \<open>The callable \<open>g(*args: Widget, **opts: Widget)\<close>, wrapped without a receiver.\<close>

definition variadic_parameters :: "(string, nat) parameter list" where
  "variadic_parameters =
     [\<lparr>name = ''args'', kind = VAR_POSITIONAL, default = None, annotation = Some ''Widget''\<rparr>,
      \<lparr>name = ''opts'', kind = VAR_KEYWORD, default = None, annotation = Some ''Widget''\<rparr>]"

definition variadic_func :: "(string, nat, string, nat) callable" where
  "variadic_func =
     \<lparr>signature = (\<lambda>st. Inr variadic_parameters),
      body = (\<lambda>args kwargs st. (Inr (Obj (length kwargs)), Suc st))\<rparr>"

text \<open>A container that knows \<open>Widget\<close> only; a lookup adds 10 to the store.\<close>

definition example_container :: "(string, nat, string, nat) container" where
  "example_container =
     \<lparr>aget = (\<lambda>ty st. if ty = ''Widget'' then (Inr (Obj 7), st + 10)
                       else (Inl (Raised ''ServiceNotFoundError''), st))\<rparr>"

text \<open>
  A container that knows every type; what it returns depends on how many lookups came
  before.
\<close>

definition counting_container :: "(string, nat, string, nat) container" where
  "counting_container = \<lparr>aget = (\<lambda>ty st. (Inr (Obj (length ty + st)), Suc st))\<rparr>"

text \<open>
  States with three wrappers on the heap: \<open>f\<close> without receiver, \<open>m\<close> bound to the
  object 42, and the callable without signature; with the first container, with no
  container, and with the second container. And a state with a wrapper of \<open>g\<close>.
\<close>

definition example_state :: "(string, nat, string, nat) state" where
  "example_state =
     \<lparr>heap = [\<lparr>func = example_func, bound_self = PyNone\<rparr>,
              \<lparr>func = example_method, bound_self = Obj 42\<rparr>,
              \<lparr>func = broken_func, bound_self = PyNone\<rparr>],
      di_container = Some example_container, store = 0, trace = []\<rparr>"

definition unset_state :: "(string, nat, string, nat) state" where
  "unset_state = example_state\<lparr>di_container := None\<rparr>"

definition counting_state :: "(string, nat, string, nat) state" where
  "counting_state = example_state\<lparr>di_container := Some counting_container\<rparr>"

definition variadic_state :: "(string, nat, string, nat) state" where
  "variadic_state =
     \<lparr>heap = [\<lparr>func = variadic_func, bound_self = PyNone\<rparr>],
      di_container = Some example_container, store = 0, trace = []\<rparr>"


section \<open>Properties\<close>

subsection \<open>The analyzer\<close>

lemma update_fresh: "k \<notin> fst ` set al \<Longrightarrow> AList.update k v al = al @ [(k, v)]"
  by (induction al) auto

lemma item_Some_fst: "item K p = Some kv \<Longrightarrow> fst kv = name p"
  by (auto simp: item_def split: if_splits)

lemma injectable_items_Cons:
  "injectable_items K (p # ps) =
     (case item K p of None \<Rightarrow> injectable_items K ps | Some kv \<Rightarrow> kv # injectable_items K ps)"
  by (simp add: injectable_items_def map_filter_simps split: option.splits)

lemma keys_injectable_items: "fst ` set (injectable_items K ps) \<subseteq> name ` set ps"
  by (induction ps)
    (auto simp: injectable_items_Cons injectable_items_def map_filter_simps
      split: option.splits dest: item_Some_fst)

lemma collect_items:
  "distinct (map name ps) \<Longrightarrow> fst ` set acc \<inter> name ` set ps = {} \<Longrightarrow>
   collect ps K acc = acc @ injectable_items K ps"
proof (induction ps arbitrary: acc)
  case Nil
  then show ?case by (simp add: injectable_items_def map_filter_simps)
next
  case (Cons p ps)
  show ?case
  proof (cases "item K p")
    case None
    then have "collect (p # ps) K acc = collect ps K acc"
      by (auto simp: item_def injectable_def split: option.splits if_splits)
    with Cons None show ?thesis by (auto simp: injectable_items_Cons)
  next
    case (Some kv)
    then obtain ty where ty: "annotation p = Some ty" "kv = (name p, ty)" "injectable K p"
      by (auto simp: item_def split: if_splits)
    then have "collect (p # ps) K acc = collect ps K (AList.update (name p) ty acc)"
      by (auto simp: injectable_def)
    also have "AList.update (name p) ty acc = acc @ [(name p, ty)]"
      using Cons.prems by (intro update_fresh) auto
    also have "collect ps K (acc @ [(name p, ty)]) = (acc @ [(name p, ty)]) @ injectable_items K ps"
      using Cons.prems by (intro Cons.IH) auto
    finally show ?thesis using Some ty by (simp add: injectable_items_Cons)
  qed
qed

lemma map_of_injectable_items_notin:
  "n \<notin> name ` set ps \<Longrightarrow> map_of (injectable_items K ps) n = None"
  using keys_injectable_items [of K ps] by (auto simp: map_of_eq_None_iff)

lemma map_of_injectable_items:
  "distinct (map name ps) \<Longrightarrow> p \<in> set ps \<Longrightarrow>
   map_of (injectable_items K ps) (name p) = (if injectable K p then annotation p else None)"
proof (induction ps)
  case Nil
  then show ?case by simp
next
  case (Cons q ps)
  show ?case
  proof (cases "p = q")
    case True
    with Cons.prems have "name p \<notin> name ` set ps" by auto
    then have "map_of (injectable_items K ps) (name p) = None"
      by (rule map_of_injectable_items_notin)
    with True show ?thesis
      by (auto simp: injectable_items_Cons item_def injectable_def split: option.splits)
  next
    case False
    with Cons.prems have p: "p \<in> set ps" "name q \<noteq> name p" by auto
    with Cons have "map_of (injectable_items K ps) (name p) =
        (if injectable K p then annotation p else None)" by simp
    with p show ?thesis
      by (auto simp: injectable_items_Cons split: option.splits dest: item_Some_fst)
  qed
qed

lemma distinct_injectable_items:
  "distinct (map name ps) \<Longrightarrow> distinct (map fst (injectable_items K ps))"
proof (induction ps)
  case Nil
  then show ?case by (simp add: injectable_items_def map_filter_simps)
next
  case (Cons p ps)
  then show ?case
    using keys_injectable_items [of K ps]
    by (auto simp: injectable_items_Cons split: option.splits dest!: item_Some_fst)
qed

lemma slice_from_nonneg: "0 \<le> N \<Longrightarrow> slice_from xs N = drop (nat N) xs"
  by (simp add: slice_from_def)

lemma slice_from_int: "slice_from xs (int n) = drop n xs"
  by (simp add: slice_from_def)

lemma find_injectable_kwargs_items:
  assumes "signature f st = Inr params" and "distinct (map name params)"
  shows "find_injectable_kwargs f N K st = Inr (injectable_items K (slice_from params N))"
proof -
  have "\<exists>k. slice_from params N = drop k params"
    unfolding slice_from_def by (cases "N < 0") auto
  then obtain k where k: "slice_from params N = drop k params" ..
  have "distinct (map name (drop k params))"
    using assms(2) by (simp add: drop_map [symmetric])
  then have "collect (drop k params) K [] = [] @ injectable_items K (drop k params)"
    by (intro collect_items) auto
  with assms(1) k show ?thesis by (simp add: find_injectable_kwargs_def)
qed

lemma nth_in_drop_iff:
  assumes "distinct (map g xs)" and "i < length xs"
  shows "g (xs ! i) \<in> g ` set (drop k xs) \<longleftrightarrow> k \<le> i"
proof
  assume "g (xs ! i) \<in> g ` set (drop k xs)"
  then obtain j where j: "j < length (drop k xs)" "g (drop k xs ! j) = g (xs ! i)"
    by (auto simp: in_set_conv_nth)
  then have "k + j < length xs" "g (xs ! (k + j)) = g (xs ! i)" by auto
  with assms have "k + j = i"
    by (metis distinct_conv_nth length_map nth_map)
  then show "k \<le> i" by simp
next
  assume "k \<le> i"
  with assms(2) have "xs ! i = drop k xs ! (i - k)" "i - k < length (drop k xs)" by auto
  then have "xs ! i \<in> set (drop k xs)" by (metis nth_mem)
  then show "g (xs ! i) \<in> g ` set (drop k xs)" by blast
qed

lemma passed_args_int:
  "int (length args) + (if b then 1 else 0) = int (length args + (if b then 1 else 0))"
  by simp

lemma call_analyzer:
  assumes "signature (func w) st = Inr params" and "distinct (map name params)"
  shows "find_injectable_kwargs (func w)
           (int (length args) + (if bound_self w \<noteq> PyNone then 1 else 0)) K st =
         Inr (injectable_items K
                (drop (length args + (if bound_self w \<noteq> PyNone then 1 else 0)) params))"
  unfolding passed_args_int find_injectable_kwargs_items [OF assms] slice_from_int ..

subsection \<open>Dictionaries\<close>

lemma dict_update_Nil [simp]: "dict_update d [] = d"
  by (simp add: dict_update_def)

lemma dict_update_Cons [simp]:
  "dict_update d ((k, v) # other) = dict_update (AList.update k v d) other"
  by (simp add: dict_update_def)

lemma map_of_dict_update:
  "map_of (dict_update d other) = map_of d ++ map_of (rev other)"
proof (induction other arbitrary: d)
  case Nil
  then show ?case by simp
next
  case (Cons a other)
  obtain k v where a: "a = (k, v)" by (cases a)
  have "map_of (dict_update d (a # other)) = map_of (AList.update k v d) ++ map_of (rev other)"
    using a Cons.IH by simp
  also have "\<dots> = map_of d ++ map_of (rev (a # other))"
    by (simp add: a update_conv' map_add_def fun_eq_iff split: option.splits)
  finally show ?case .
qed

lemma keys_dict_update: "keys (dict_update d other) = keys d \<union> keys other"
proof (induction other arbitrary: d)
  case Nil
  then show ?case by (simp add: keys_def)
next
  case (Cons a other)
  obtain k v where a: "a = (k, v)" by (cases a)
  show ?case using Cons.IH [of "AList.update k v d"] dom_update [of k v d]
    by (auto simp: a keys_def)
qed

text \<open>Copying a dictionary, as \<open>new_kwargs.update(kwargs)\<close> does, gives the same items.\<close>

lemma dict_update_fresh:
  "distinct (map fst other) \<Longrightarrow> fst ` set d \<inter> fst ` set other = {} \<Longrightarrow>
   dict_update d other = d @ other"
proof (induction other arbitrary: d)
  case Nil
  then show ?case by simp
next
  case (Cons a other)
  obtain k v where a: "a = (k, v)" by (cases a)
  from Cons.prems a have "AList.update k v d = d @ [(k, v)]"
    by (intro update_fresh) auto
  moreover from Cons.prems a have "dict_update (d @ [(k, v)]) other = (d @ [(k, v)]) @ other"
    by (intro Cons.IH) auto
  ultimately show ?case by (simp add: a)
qed

lemma dict_update_copy: "distinct (map fst kwargs) \<Longrightarrow> dict_update [] kwargs = kwargs"
  using dict_update_fresh [of kwargs "[]"] by simp

lemma map_of_rev_distinct:
  "distinct (map fst xs) \<Longrightarrow> map_of (rev xs) = map_of xs"
proof (induction xs)
  case Nil
  then show ?case by simp
next
  case (Cons a xs)
  obtain k v where a: "a = (k, v)" by (cases a)
  from Cons.prems a have k: "k \<notin> fst ` set xs" by auto
  then have "map_of xs k = None" by (simp add: map_of_eq_None_iff)
  have "map_of (rev (a # xs)) = map_of [a] ++ map_of (rev xs)"
    by (simp add: map_of_append del: map_of.simps)
  also have "\<dots> = map_of [a] ++ map_of xs"
    using Cons by simp
  also have "\<dots> = map_of (a # xs)"
    using \<open>map_of xs k = None\<close> by (auto simp: a map_add_def fun_eq_iff split: option.splits)
  finally show ?case .
qed

lemma map_of_dict_update_zip:
  assumes "distinct ks" and "length vs = length ks" and "j < length ks"
  shows "map_of (dict_update d (zip ks vs)) (ks ! j) = Some (vs ! j)"
proof -
  have "distinct (map fst (zip ks vs))"
    using assms by (simp add: map_fst_zip)
  then have "map_of (rev (zip ks vs)) = map_of (zip ks vs)"
    by (rule map_of_rev_distinct)
  moreover have "map_of (zip ks vs) (ks ! j) = Some (vs ! j)"
    using assms by (simp add: map_of_zip_nth)
  ultimately show ?thesis
    by (simp add: map_of_dict_update)
qed

lemma keys_zip: "length vs = length ks \<Longrightarrow> keys (zip ks vs) = set ks"
  by (simp add: keys_def map_fst_zip)

subsection \<open>Traces and the heap\<close>

lemma requested_append [simp]: "requested (es @ fs) = requested es @ requested fs"
  by (induction es rule: requested.induct) auto

lemma requested_map_Aget [simp]: "requested (map Aget tys) = tys"
  by (induction tys) auto

lemma invocations_append [simp]: "invocations (es @ fs) = invocations es @ invocations fs"
  by (induction es rule: invocations.induct) auto

lemma invocations_map_Aget [simp]: "invocations (map Aget tys) = []"
  by (induction tys) auto

lemma deref_append: "deref h r = Some x \<Longrightarrow> deref (h @ ys) r = Some x"
  by (auto simp: deref_def nth_append split: if_splits)

lemma deref_fresh: "deref (h @ [x]) (length h) = Some x" "deref h (length h) = None"
  by (simp_all add: deref_def)

subsection \<open>The invocation\<close>

lemma aget_all_length: "aget_all c tys st = (Inr vs, st') \<Longrightarrow> length vs = length tys"
  by (induction tys arbitrary: st vs) (auto split: prod.splits sum.splits)

lemma resolve_cases:
  "(\<exists>vs st'. aget_all c (map snd injs) (store s) = (Inr vs, st') \<and>
       resolve c injs kw s =
         (Inr (dict_update kw (zip (map fst injs) vs)),
          s\<lparr>store := st', trace := trace s @ map Aget (map snd injs)\<rparr>)) \<or>
   (\<exists>i vs st\<^sub>i e st'. i < length injs \<and>
       aget_all c (take i (map snd injs)) (store s) = (Inr vs, st\<^sub>i) \<and>
       aget c (snd (injs ! i)) st\<^sub>i = (Inl e, st') \<and>
       aget_all c (map snd injs) (store s) = (Inl e, st') \<and>
       resolve c injs kw s =
         (Inl e, s\<lparr>store := st', trace := trace s @ map Aget (take (Suc i) (map snd injs))\<rparr>))"
proof (induction injs arbitrary: kw s)
  case Nil
  then show ?case by simp
next
  case (Cons a injs)
  obtain n ty where a: "a = (n, ty)" by (cases a)
  obtain r st1 where r: "aget c ty (store s) = (r, st1)" by (cases "aget c ty (store s)")
  show ?case
  proof (cases r)
    case (Inl e)
    with a r have "aget_all c (take 0 (map snd (a # injs))) (store s) = (Inr [], store s)"
      "aget c (snd ((a # injs) ! 0)) (store s) = (Inl e, st1)"
      "aget_all c (map snd (a # injs)) (store s) = (Inl e, st1)"
      "resolve c (a # injs) kw s =
         (Inl e, s\<lparr>store := st1, trace := trace s @ map Aget (take (Suc 0) (map snd (a # injs)))\<rparr>)"
      by (simp_all add: await_aget_def)
    then show ?thesis by blast
  next
    case (Inr v)
    let ?s1 = "s\<lparr>store := st1, trace := trace s @ [Aget ty]\<rparr>"
    let ?kw1 = "AList.update n v kw"
    have step: "resolve c (a # injs) kw s = resolve c injs ?kw1 ?s1"
      using a r Inr by (simp add: await_aget_def)
    from Cons.IH [where kw = ?kw1 and s = ?s1] show ?thesis
    proof (elim disjE exE conjE)
      fix vs st'
      assume "aget_all c (map snd injs) (store ?s1) = (Inr vs, st')"
        and "resolve c injs ?kw1 ?s1 =
          (Inr (dict_update ?kw1 (zip (map fst injs) vs)),
           ?s1\<lparr>store := st', trace := trace ?s1 @ map Aget (map snd injs)\<rparr>)"
      with a r Inr step have "aget_all c (map snd (a # injs)) (store s) = (Inr (v # vs), st')"
        "resolve c (a # injs) kw s =
          (Inr (dict_update kw (zip (map fst (a # injs)) (v # vs))),
           s\<lparr>store := st', trace := trace s @ map Aget (map snd (a # injs))\<rparr>)"
        by simp_all
      then show ?thesis by blast
    next
      fix i vs st\<^sub>i e st'
      assume "i < length injs"
        and "aget_all c (take i (map snd injs)) (store ?s1) = (Inr vs, st\<^sub>i)"
        and "aget c (snd (injs ! i)) st\<^sub>i = (Inl e, st')"
        and "aget_all c (map snd injs) (store ?s1) = (Inl e, st')"
        and "resolve c injs ?kw1 ?s1 =
          (Inl e, ?s1\<lparr>store := st', trace := trace ?s1 @ map Aget (take (Suc i) (map snd injs))\<rparr>)"
      with a r Inr step have "Suc i < length (a # injs)"
        "aget_all c (take (Suc i) (map snd (a # injs))) (store s) = (Inr (v # vs), st\<^sub>i)"
        "aget c (snd ((a # injs) ! Suc i)) st\<^sub>i = (Inl e, st')"
        "aget_all c (map snd (a # injs)) (store s) = (Inl e, st')"
        "resolve c (a # injs) kw s =
          (Inl e, s\<lparr>store := st', trace := trace s @ map Aget (take (Suc (Suc i)) (map snd (a # injs)))\<rparr>)"
        by simp_all
      then show ?thesis by blast
    qed
  qed
qed

lemma call_unfold:
  assumes "deref (heap s) self = Some w" and "di_container s = Some c"
  shows "LazyInjecting_call self args kwargs s =
     Some (case find_injectable_kwargs (func w)
                  (int (length args + (if bound_self w \<noteq> PyNone then 1 else 0))) (keys kwargs)
                  (store s) of
             Inl e \<Rightarrow> (Inl e, s)
           | Inr injs \<Rightarrow>
               (case resolve c injs (dict_update [] kwargs) s of
                  (Inl e, s') \<Rightarrow> (Inl e, s')
                | (Inr kw, s') \<Rightarrow>
                    await_func (func w)
                      (if bound_self w \<noteq> PyNone then bound_self w # args else args) kw s'))"
  using assms by (simp add: LazyInjecting_call_def split: sum.splits prod.splits)

lemma call_cases:
  assumes w: "deref (heap s) self = Some w" and c: "di_container s = Some c"
    and sig: "signature (func w) (store s) = Inr params" and dist: "distinct (map name params)"
    and injs: "injs = injectable_items (keys kwargs)
                 (drop (length args + (if bound_self w \<noteq> PyNone then 1 else 0)) params)"
    and args': "args' = (if bound_self w \<noteq> PyNone then bound_self w # args else args)"
  shows
   "(\<exists>vs st' kw. aget_all c (map snd injs) (store s) = (Inr vs, st') \<and>
       kw = dict_update (dict_update [] kwargs) (zip (map fst injs) vs) \<and>
       LazyInjecting_call self args kwargs s =
         Some (fst (body (func w) args' kw st'),
               s\<lparr>store := snd (body (func w) args' kw st'),
                 trace := trace s @ map Aget (map snd injs) @ [Invoke args' kw]\<rparr>)) \<or>
    (\<exists>i vs st\<^sub>i e st'. i < length injs \<and>
       aget_all c (take i (map snd injs)) (store s) = (Inr vs, st\<^sub>i) \<and>
       aget c (snd (injs ! i)) st\<^sub>i = (Inl e, st') \<and>
       aget_all c (map snd injs) (store s) = (Inl e, st') \<and>
       LazyInjecting_call self args kwargs s =
         Some (Inl e, s\<lparr>store := st', trace := trace s @ map Aget (take (Suc i) (map snd injs))\<rparr>))"
proof -
  let ?n = "length args + (if bound_self w \<noteq> PyNone then 1 else 0)"
  have f: "find_injectable_kwargs (func w) (int ?n) (keys kwargs) (store s) = Inr injs"
    using find_injectable_kwargs_items [OF sig dist, of "int ?n" "keys kwargs"] injs
    by (simp only: slice_from_int)
  have call: "LazyInjecting_call self args kwargs s =
     Some (case resolve c injs (dict_update [] kwargs) s of
             (Inl e, s') \<Rightarrow> (Inl e, s')
           | (Inr kw, s') \<Rightarrow> await_func (func w) args' kw s')"
    unfolding call_unfold [OF w c] f args' by simp
  from resolve_cases [of c injs s "dict_update [] kwargs"] show ?thesis
  proof (elim disjE exE conjE)
    fix vs st'
    assume "aget_all c (map snd injs) (store s) = (Inr vs, st')"
      and "resolve c injs (dict_update [] kwargs) s =
         (Inr (dict_update (dict_update [] kwargs) (zip (map fst injs) vs)),
          s\<lparr>store := st', trace := trace s @ map Aget (map snd injs)\<rparr>)"
    with call show ?thesis
      by (intro disjI1) (simp add: await_func_def split: prod.splits)
  next
    fix i vs st\<^sub>i e st'
    assume "i < length injs"
      and "aget_all c (take i (map snd injs)) (store s) = (Inr vs, st\<^sub>i)"
      and "aget c (snd (injs ! i)) st\<^sub>i = (Inl e, st')"
      and "aget_all c (map snd injs) (store s) = (Inl e, st')"
      and "resolve c injs (dict_update [] kwargs) s =
         (Inl e, s\<lparr>store := st', trace := trace s @ map Aget (take (Suc i) (map snd injs))\<rparr>)"
    with call show ?thesis by (intro disjI2) auto
  qed
qed

lemma call_kwargs_keys:
  assumes "aget_all c (map snd injs) st = (Inr vs, st')"
  shows "keys (dict_update (dict_update [] kwargs) (zip (map fst injs) vs)) =
         keys kwargs \<union> keys injs"
proof -
  have len: "length vs = length (map fst injs)"
    using aget_all_length [OF assms] by simp
  show ?thesis
    unfolding keys_dict_update keys_zip [OF len] by (simp add: keys_def)
qed

lemma resolve_frame:
  "heap (snd (resolve c injs kw s)) = heap s \<and>
   di_container (snd (resolve c injs kw s)) = di_container s"
proof (induction injs arbitrary: kw s)
  case Nil
  then show ?case by simp
next
  case (Cons a injs)
  obtain n ty where a: "a = (n, ty)" by (cases a)
  obtain r st where r: "aget c ty (store s) = (r, st)" by (cases "aget c ty (store s)")
  show ?case
  proof (cases r)
    case (Inl e)
    with a r show ?thesis by (simp add: await_aget_def)
  next
    case (Inr v)
    let ?s1 = "s\<lparr>store := st, trace := trace s @ [Aget ty]\<rparr>"
    have "resolve c (a # injs) kw s = resolve c injs (AList.update n v kw) ?s1"
      using a r Inr by (simp add: await_aget_def)
    with Cons.IH [where kw = "AList.update n v kw" and s = ?s1] show ?thesis by simp
  qed
qed

lemma await_func_frame:
  "heap (snd (await_func f args kw s)) = heap s \<and>
   di_container (snd (await_func f args kw s)) = di_container s"
  by (simp add: await_func_def split: prod.splits)

lemma call_frame:
  assumes "deref (heap s) self = Some w"
  shows "\<exists>res s'. LazyInjecting_call self args kwargs s = Some (res, s') \<and>
           heap s' = heap s \<and> di_container s' = di_container s"
proof (cases "di_container s")
  case None
  with assms show ?thesis by (simp add: LazyInjecting_call_def)
next
  case (Some c)
  let ?args = "if bound_self w \<noteq> PyNone then bound_self w # args else args"
  show ?thesis
  proof (cases "find_injectable_kwargs (func w)
           (int (length args + (if bound_self w \<noteq> PyNone then 1 else 0))) (keys kwargs)
           (store s)")
    case (Inl e)
    then show ?thesis unfolding call_unfold [OF assms Some] by simp
  next
    case (Inr injs)
    obtain r s1 where r: "resolve c injs (dict_update [] kwargs) s = (r, s1)"
      by (cases "resolve c injs (dict_update [] kwargs) s")
    with resolve_frame [of c injs "dict_update [] kwargs" s]
    have s1: "heap s1 = heap s" "di_container s1 = di_container s" by simp_all
    show ?thesis
    proof (cases r)
      case (Inl e)
      with Inr r s1 show ?thesis unfolding call_unfold [OF assms Some] by simp
    next
      case kw: (Inr kw)
      obtain res s2 where f: "await_func (func w) ?args kw s1 = (res, s2)"
        by (cases "await_func (func w) ?args kw s1")
      with await_func_frame [of "func w" ?args kw s1] s1
      have "heap s2 = heap s" "di_container s2 = di_container s" by simp_all
      with Inr r kw f show ?thesis unfolding call_unfold [OF assms Some] by simp
    qed
  qed
qed

subsection \<open>The flag\<close>

lemma lower_char_eq_iff:
  assumes "97 \<le> (of_char l :: nat)" and "(of_char l :: nat) \<le> 122"
  shows "lower_char c = l \<longleftrightarrow> c = l \<or> c = char_of ((of_char l :: nat) - 32)"
proof (cases "65 \<le> (of_char c :: nat) \<and> (of_char c :: nat) \<le> 90")
  case True
  then have "lower_char c = char_of ((of_char c :: nat) + 32)"
    by (simp add: lower_char_def)
  moreover have "char_of ((of_char c :: nat) + 32) = l \<longleftrightarrow> (of_char c :: nat) + 32 = of_char l"
  proof
    assume "char_of ((of_char c :: nat) + 32) = l"
    then have "(of_char (char_of ((of_char c :: nat) + 32)) :: nat) = of_char l" by simp
    with True show "(of_char c :: nat) + 32 = of_char l" by simp
  next
    assume "(of_char c :: nat) + 32 = of_char l"
    then show "char_of ((of_char c :: nat) + 32) = l" by simp
  qed
  moreover have "(of_char c :: nat) + 32 = of_char l \<longleftrightarrow> c = char_of ((of_char l :: nat) - 32)"
  proof
    assume "(of_char c :: nat) + 32 = of_char l"
    then have "(of_char l :: nat) - 32 = of_char c" by simp
    then show "c = char_of ((of_char l :: nat) - 32)" by simp
  next
    assume "c = char_of ((of_char l :: nat) - 32)"
    then have "(of_char c :: nat) = ((of_char l :: nat) - 32) mod 256" by simp
    with assms show "(of_char c :: nat) + 32 = of_char l" by simp
  qed
  moreover have "c \<noteq> l" using True assms by auto
  ultimately show ?thesis by simp
next
  case False
  then have "lower_char c = c" by (auto simp: lower_char_def)
  moreover have "c \<noteq> char_of ((of_char l :: nat) - 32)"
  proof
    assume "c = char_of ((of_char l :: nat) - 32)"
    then have "(of_char c :: nat) = ((of_char l :: nat) - 32) mod 256" by simp
    moreover have "((of_char l :: nat) - 32) mod 256 = of_char l - 32"
      using assms by simp
    ultimately have "(of_char c :: nat) = of_char l - 32" by simp
    with assms False show False by arith
  qed
  ultimately show ?thesis by auto
qed

lemma lower_char_true:
  "lower_char c = CHR ''t'' \<longleftrightarrow> c \<in> set ''tT''"
  "lower_char c = CHR ''r'' \<longleftrightarrow> c \<in> set ''rR''"
  "lower_char c = CHR ''u'' \<longleftrightarrow> c \<in> set ''uU''"
  "lower_char c = CHR ''e'' \<longleftrightarrow> c \<in> set ''eE''"
proof -
  have t: "char_of ((of_char CHR ''t'' :: nat) - 32) = CHR ''T''"
    and r: "char_of ((of_char CHR ''r'' :: nat) - 32) = CHR ''R''"
    and u: "char_of ((of_char CHR ''u'' :: nat) - 32) = CHR ''U''"
    and e: "char_of ((of_char CHR ''e'' :: nat) - 32) = CHR ''E''"
    by (simp_all add: char_of_def bit_0)
  show "lower_char c = CHR ''t'' \<longleftrightarrow> c \<in> set ''tT''"
    using lower_char_eq_iff [of "CHR ''t''" c] unfolding t by simp
  show "lower_char c = CHR ''r'' \<longleftrightarrow> c \<in> set ''rR''"
    using lower_char_eq_iff [of "CHR ''r''" c] unfolding r by simp
  show "lower_char c = CHR ''u'' \<longleftrightarrow> c \<in> set ''uU''"
    using lower_char_eq_iff [of "CHR ''u''" c] unfolding u by simp
  show "lower_char c = CHR ''e'' \<longleftrightarrow> c \<in> set ''eE''"
    using lower_char_eq_iff [of "CHR ''e''" c] unfolding e by simp
qed

lemma lower_true_iff: "lower v = ''true'' \<longleftrightarrow> true_ignoring_case v"
proof -
  have "lower v = ''true'' \<longleftrightarrow> list_all2 (=) (map lower_char v) ''true''"
    unfolding lower_def by (simp only: list_all2_eq)
  also have "\<dots> \<longleftrightarrow> list_all2 (\<lambda>x y. lower_char x = y) v ''true''"
    by (simp only: list_all2_map1)
  also have "\<dots> \<longleftrightarrow> true_ignoring_case v"
    unfolding true_ignoring_case_def
    by (simp only: list_all2_Cons2 list_all2_Nil2 lower_char_true)
  finally show ?thesis .
qed

subsection \<open>The examples, evaluated\<close>

text \<open>
  The scenarios of the specification: \<open>f(1)\<close> has the injectable set \<open>{"c": Widget}\<close>,
  \<open>f(1, c=...)\<close> the empty one. And the slice of the analyzer for a negative count,
  which no invocation produces: it counts from the end.
\<close>

lemma example_scenarios:
  "find_injectable_kwargs example_func 1 {} st = Inr [(''c'', ''Widget'')]"
  "find_injectable_kwargs example_func 1 {''c''} st = Inr []"
  "find_injectable_kwargs example_func (- 1) {} st = Inr [(''c'', ''Widget'')]"
  "find_injectable_kwargs example_func 0 {} st = Inr [(''a'', ''int''), (''c'', ''Widget'')]"
  by (simp_all add: find_injectable_kwargs_def slice_from_def example_func_def
      example_parameters_def)

lemma example_items:
  "injectable_items {} (drop 1 example_parameters) = [(''c'', ''Widget'')]"
  by (simp add: injectable_items_def item_def injectable_def example_parameters_def
      map_filter_simps)

lemma example_items_all:
  "injectable_items {} example_parameters = [(''a'', ''int''), (''c'', ''Widget'')]"
  by (simp add: injectable_items_def item_def injectable_def example_parameters_def
      map_filter_simps)

section \<open>Claims\<close>

text \<open>
  C1. For a callable whose signature resolves (parameter names are distinct, as
  \<open>inspect.Signature\<close> guarantees), a positional-argument count \<open>N \<ge> 0\<close> and a
  keyword-name set \<open>K\<close>, the analyzer returns a mapping whose keys are parameter names,
  and a parameter is in it, mapped to its declared annotation, if and only if it is not
  among the first \<open>N\<close> parameters, carries an annotation, has no default, is not
  positional-only and its name is not in \<open>K\<close>.
\<close>

theorem find_injectable_kwargs_iff:
  assumes sig: "signature f st = Inr params"
      and dist: "distinct (map name params)"
      and N: "0 \<le> N"
      and i: "i < length params"
  shows "\<exists>m. find_injectable_kwargs f N K st = Inr m \<and>
             keys m \<subseteq> name ` set params \<and>
             map_of m (name (params ! i)) =
               (if N \<le> int i \<and> annotation (params ! i) \<noteq> None \<and> default (params ! i) = None \<and>
                   kind (params ! i) \<noteq> POSITIONAL_ONLY \<and> name (params ! i) \<notin> K
                then annotation (params ! i) else None)"
proof -
  let ?ps = "drop (nat N) params" and ?p = "params ! i"
  let ?m = "injectable_items K ?ps"
  have m: "find_injectable_kwargs f N K st = Inr ?m"
    using find_injectable_kwargs_items [OF sig dist, of N K] N by (simp add: slice_from_nonneg)
  have "keys ?m \<subseteq> name ` set ?ps"
    using keys_injectable_items [of K ?ps] by (simp add: keys_def)
  also have "\<dots> \<subseteq> name ` set params"
    by (meson image_mono set_drop_subset)
  finally have ks: "keys ?m \<subseteq> name ` set params" .
  have d: "distinct (map name ?ps)"
    using dist by (simp add: drop_map [symmetric])
  have "map_of ?m (name ?p) =
          (if N \<le> int i \<and> injectable K ?p then annotation ?p else None)"
  proof (cases "nat N \<le> i")
    case True
    with i have "?p = ?ps ! (i - nat N)" "i - nat N < length ?ps" by auto
    then have "?p \<in> set ?ps" by (metis nth_mem)
    with d have "map_of ?m (name ?p) = (if injectable K ?p then annotation ?p else None)"
      by (rule map_of_injectable_items)
    with True N show ?thesis by auto
  next
    case False
    with nth_in_drop_iff [OF dist i, of "nat N"] have "name ?p \<notin> name ` set ?ps" by simp
    then have "map_of ?m (name ?p) = None" by (rule map_of_injectable_items_notin)
    with False N show ?thesis by auto
  qed
  with m ks show ?thesis by (auto simp: injectable_def)
qed

theorem find_injectable_kwargs_iff_witness:
  "signature example_func 0 = Inr example_parameters \<and>
   distinct (map name example_parameters) \<and> (0::int) \<le> 1 \<and> 2 < length example_parameters \<and>
   (\<exists>m. find_injectable_kwargs example_func 1 {} 0 = Inr m \<and>
        keys m \<subseteq> name ` set example_parameters \<and>
        map_of m ''c'' = Some ''Widget'')"
  using find_injectable_kwargs_iff
    [where f = example_func and st = 0 and params = example_parameters and N = 1 and i = 2
       and K = "{}"]
  by (simp add: example_func_def example_parameters_def)

text \<open>
  C2. When the context variable holds no container, calling the wrapper raises the
  \<open>RuntimeError\<close> and leaves the whole state as it was: the wrapped callable has not run
  (the store is untouched), nothing has been asked of a container (the trace is
  untouched), and the signature has not been looked at (the result is the same for a
  callable whose signature cannot be built, as in the witness).
\<close>

theorem call_without_container:
  assumes "deref (heap s) self = Some w" and "di_container s = None"
  shows "LazyInjecting_call self args kwargs s = Some (Inl (RuntimeError no_client), s)"
  using assms by (simp add: LazyInjecting_call_def)

theorem call_without_container_witness:
  "deref (heap unset_state) 2 = Some \<lparr>func = broken_func, bound_self = PyNone\<rparr> \<and>
   di_container unset_state = None \<and>
   LazyInjecting_call 2 [Obj 1] [] unset_state = Some (Inl (RuntimeError no_client), unset_state) \<and>
   store unset_state = 0 \<and> trace unset_state = []"
  using call_without_container
    [of unset_state 2 "\<lparr>func = broken_func, bound_self = PyNone\<rparr>" "[Obj 1]" "[]"]
  by (simp add: unset_state_def example_state_def deref_def)

text \<open>
  C3. Injection is disabled exactly when the variable \<open>LIGHTBULB_DI_DISABLED\<close> is set
  in the environment the module is loaded in and its value is \<open>"true"\<close> up to the case of
  its letters. When disabled, \<open>LazyInjecting(func, ...)\<close> is \<open>func\<close> itself and the state is
  untouched: no wrapper object, no container lookup. For every other value, and when the
  variable is absent, it is a reference to a new wrapper object holding \<open>func\<close> and the
  receiver.
\<close>

theorem disabled_iff_flag_true:
  "di_disabled environ =
     (case environ ''LIGHTBULB_DI_DISABLED'' of None \<Rightarrow> False | Some v \<Rightarrow> true_ignoring_case v) \<and>
   LazyInjecting_new environ f receiver s =
     (if di_disabled environ then (Callable f, s)
      else (Wrapper (length (heap s)),
            s\<lparr>heap := heap s @ [\<lparr>func = f, bound_self = receiver\<rparr>]\<rparr>))"
proof
  have "lower ''false'' \<noteq> ''true''"
    by (simp add: lower_true_iff true_ignoring_case_def)
  then show "di_disabled environ =
     (case environ ''LIGHTBULB_DI_DISABLED'' of None \<Rightarrow> False | Some v \<Rightarrow> true_ignoring_case v)"
    by (simp add: di_disabled_def lower_true_iff split: option.splits)
  show "LazyInjecting_new environ f receiver s =
     (if di_disabled environ then (Callable f, s)
      else (Wrapper (length (heap s)),
            s\<lparr>heap := heap s @ [\<lparr>func = f, bound_self = receiver\<rparr>]\<rparr>))"
    by (simp add: LazyInjecting_new_def FakeLazyInjecting_new_def LazyInjecting_init_def)
qed

theorem disabled_iff_flag_true_witness:
  "di_disabled [''LIGHTBULB_DI_DISABLED'' \<mapsto> ''TrUe''] \<and>
   LazyInjecting_new [''LIGHTBULB_DI_DISABLED'' \<mapsto> ''TrUe''] example_func PyNone example_state =
     (Callable example_func, example_state) \<and>
   \<not> di_disabled [''LIGHTBULB_DI_DISABLED'' \<mapsto> ''1''] \<and>
   \<not> di_disabled Map.empty \<and>
   fst (LazyInjecting_new Map.empty example_func PyNone example_state) = Wrapper 3"
proof -
  have a: "di_disabled [''LIGHTBULB_DI_DISABLED'' \<mapsto> ''TrUe'']"
    using disabled_iff_flag_true
      [of "[''LIGHTBULB_DI_DISABLED'' \<mapsto> ''TrUe'']" example_func PyNone example_state]
    by (simp add: true_ignoring_case_def)
  have b: "\<not> di_disabled [''LIGHTBULB_DI_DISABLED'' \<mapsto> ''1'']"
    using disabled_iff_flag_true
      [of "[''LIGHTBULB_DI_DISABLED'' \<mapsto> ''1'']" example_func PyNone example_state]
    by (simp add: true_ignoring_case_def)
  have c: "\<not> di_disabled Map.empty"
    using disabled_iff_flag_true [of Map.empty example_func PyNone example_state]
    by simp
  have "LazyInjecting_new [''LIGHTBULB_DI_DISABLED'' \<mapsto> ''TrUe''] example_func PyNone
      example_state = (Callable example_func, example_state)"
    using disabled_iff_flag_true
      [of "[''LIGHTBULB_DI_DISABLED'' \<mapsto> ''TrUe'']" example_func PyNone example_state] a
    by simp
  moreover have "fst (LazyInjecting_new Map.empty example_func PyNone example_state) = Wrapper 3"
    using disabled_iff_flag_true [of Map.empty example_func PyNone example_state] c
    by (simp add: example_state_def)
  ultimately show ?thesis using a b c by simp
qed

text \<open>
  C4. An invocation with positional arguments \<open>P\<close> works with the injectable set the
  analyzer computes for the count \<open>len(P) + 1\<close> when a receiver is bound and \<open>len(P)\<close>
  when none is. When every lookup for that set succeeds, the result and the effect of the
  invocation are those of the wrapped callable applied to the receiver followed by \<open>P\<close>
  (just \<open>P\<close> when unbound) and to the keyword arguments of the call extended by the
  resolved values, whose names are those of the call and of that set; when a lookup
  raises, its exception is the result and the callable is not called. With a receiver
  bound, the first formal parameter, which takes the receiver, is never in the
  injectable set.
\<close>

theorem call_counts_and_passes_receiver:
  assumes w: "deref (heap s) self = Some w" and c: "di_container s = Some c"
    and sig: "signature (func w) (store s) = Inr params" and dist: "distinct (map name params)"
  shows "\<exists>injs.
     find_injectable_kwargs (func w)
       (int (length args) + (if bound_self w \<noteq> PyNone then 1 else 0)) (keys kwargs) (store s) =
       Inr injs \<and>
     (case aget_all c (map snd injs) (store s) of
        (Inr vs, st') \<Rightarrow>
          (\<exists>args' kw.
             args' = (if bound_self w \<noteq> PyNone then bound_self w # args else args) \<and>
             kw = dict_update (dict_update [] kwargs) (zip (map fst injs) vs) \<and>
             keys kw = keys kwargs \<union> keys injs \<and>
             LazyInjecting_call self args kwargs s =
               Some (fst (body (func w) args' kw st'),
                     s\<lparr>store := snd (body (func w) args' kw st'),
                       trace := trace s @ map Aget (map snd injs) @ [Invoke args' kw]\<rparr>))
      | (Inl e, st') \<Rightarrow>
          (\<exists>k<length injs.
             LazyInjecting_call self args kwargs s =
               Some (Inl e,
                     s\<lparr>store := st',
                       trace := trace s @ map Aget (take (Suc k) (map snd injs))\<rparr>))) \<and>
     (\<forall>p ps. bound_self w \<noteq> PyNone \<and> params = p # ps \<longrightarrow> name p \<notin> keys injs)"
proof -
  let ?n = "length args + (if bound_self w \<noteq> PyNone then 1 else 0)"
  let ?injs = "injectable_items (keys kwargs) (drop ?n params)"
  have f: "find_injectable_kwargs (func w)
       (int (length args) + (if bound_self w \<noteq> PyNone then 1 else 0)) (keys kwargs) (store s) =
       Inr ?injs"
    by (rule call_analyzer [OF sig dist])
  have recv: "\<forall>p ps. bound_self w \<noteq> PyNone \<and> params = p # ps \<longrightarrow> name p \<notin> keys ?injs"
  proof (intro allI impI)
    fix p ps assume a: "bound_self w \<noteq> PyNone \<and> params = p # ps"
    then have "drop ?n params = drop (length args) ps" by simp
    then have "keys ?injs \<subseteq> name ` set (drop (length args) ps)"
      using keys_injectable_items [of "keys kwargs" "drop (length args) ps"]
      by (simp add: keys_def)
    also have "\<dots> \<subseteq> name ` set ps"
      by (meson image_mono set_drop_subset)
    finally show "name p \<notin> keys ?injs" using dist a by auto
  qed
  have main: "case aget_all c (map snd ?injs) (store s) of
        (Inr vs, st') \<Rightarrow>
          (\<exists>args' kw.
             args' = (if bound_self w \<noteq> PyNone then bound_self w # args else args) \<and>
             kw = dict_update (dict_update [] kwargs) (zip (map fst ?injs) vs) \<and>
             keys kw = keys kwargs \<union> keys ?injs \<and>
             LazyInjecting_call self args kwargs s =
               Some (fst (body (func w) args' kw st'),
                     s\<lparr>store := snd (body (func w) args' kw st'),
                       trace := trace s @ map Aget (map snd ?injs) @ [Invoke args' kw]\<rparr>))
      | (Inl e, st') \<Rightarrow>
          (\<exists>k<length ?injs.
             LazyInjecting_call self args kwargs s =
               Some (Inl e,
                     s\<lparr>store := st',
                       trace := trace s @ map Aget (take (Suc k) (map snd ?injs))\<rparr>))"
    using call_cases [OF w c sig dist refl refl, where kwargs = kwargs and args = args]
  proof (elim disjE exE conjE)
    fix vs st' kw
    assume a: "aget_all c (map snd ?injs) (store s) = (Inr vs, st')"
      and "kw = dict_update (dict_update [] kwargs) (zip (map fst ?injs) vs)"
      and "LazyInjecting_call self args kwargs s =
         Some (fst (body (func w)
                 (if bound_self w \<noteq> PyNone then bound_self w # args else args) kw st'),
               s\<lparr>store := snd (body (func w)
                   (if bound_self w \<noteq> PyNone then bound_self w # args else args) kw st'),
                 trace := trace s @ map Aget (map snd ?injs) @
                   [Invoke (if bound_self w \<noteq> PyNone then bound_self w # args else args) kw]\<rparr>)"
    with call_kwargs_keys [OF a, of kwargs] show ?thesis
      by (simp only: a prod.case sum.case) blast
  next
    fix i vs st\<^sub>i e st'
    assume "i < length ?injs"
      and a: "aget_all c (map snd ?injs) (store s) = (Inl e, st')"
      and "LazyInjecting_call self args kwargs s =
         Some (Inl e, s\<lparr>store := st', trace := trace s @ map Aget (take (Suc i) (map snd ?injs))\<rparr>)"
    then show ?thesis
      by (simp only: a prod.case sum.case) blast
  qed
  show ?thesis
  proof (rule exI [of _ ?injs], intro conjI)
    show "find_injectable_kwargs (func w)
       (int (length args) + (if bound_self w \<noteq> PyNone then 1 else 0)) (keys kwargs) (store s) =
       Inr ?injs"
      by (rule f)
  qed (rule main, rule recv)
qed

theorem call_counts_and_passes_receiver_witness:
  "deref (heap example_state) 1 = Some \<lparr>func = example_method, bound_self = Obj 42\<rparr> \<and>
   di_container example_state = Some example_container \<and>
   find_injectable_kwargs example_method 1 {} (store example_state) = Inr [(''dep'', ''Widget'')] \<and>
   LazyInjecting_call 1 [] [] example_state =
     Some (Inr (Obj 1),
           example_state\<lparr>store := 11,
             trace := [Aget ''Widget'', Invoke [Obj 42] [(''dep'', Obj 7)]]\<rparr>) \<and>
   ''self'' \<notin> keys [(''dep'', ''Widget'')]"
proof -
  let ?w = "\<lparr>func = example_method, bound_self = Obj 42\<rparr> :: (string, nat, string, nat) LazyInjecting"
  let ?params = "[\<lparr>name = ''self'', kind = POSITIONAL_OR_KEYWORD, default = None,
          annotation = Some ''Plugin''\<rparr>,
         \<lparr>name = ''dep'', kind = POSITIONAL_OR_KEYWORD, default = None,
          annotation = Some ''Widget''\<rparr>] :: (string, nat) parameter list"
  have w: "deref (heap example_state) 1 = Some ?w"
    by (simp add: example_state_def deref_def)
  have c: "di_container example_state = Some example_container"
    by (simp add: example_state_def)
  have sig: "signature (func ?w) (store example_state) = Inr ?params"
    by (simp add: example_method_def)
  have dist: "distinct (map name ?params)" by simp
  have f: "find_injectable_kwargs example_method 1 {} (store example_state) =
      Inr [(''dep'', ''Widget'')]"
    by (simp add: find_injectable_kwargs_def slice_from_def example_method_def)
  have st: "store example_state = 0" "trace example_state = []"
    by (simp_all add: example_state_def)
  have f': "find_injectable_kwargs (func ?w)
       (int (length ([] :: nat pyobj list)) + (if bound_self ?w \<noteq> PyNone then 1 else 0))
       (keys ([] :: (string, nat pyobj) dict)) (store example_state) =
      Inr [(''dep'', ''Widget'')]"
    using f by (simp add: keys_def)
  note inst = call_counts_and_passes_receiver
    [OF w c sig dist, where args = "[]" and kwargs = "[]", unfolded f']
  from inst have "LazyInjecting_call 1 [] [] example_state =
     Some (Inr (Obj 1),
           example_state\<lparr>store := 11,
             trace := [Aget ''Widget'', Invoke [Obj 42] [(''dep'', Obj 7)]]\<rparr>)"
    by (simp add: st example_container_def example_method_def)
  moreover from inst have "''self'' \<notin> keys [(''dep'', ''Widget'')]"
    by simp
  ultimately show ?thesis using w c f by simp
qed

text \<open>
  C5. \<open>__get__\<close> with an instance that is not \<open>None\<close> returns a reference that denoted
  no object before, to a wrapper holding the same callable and the instance as receiver;
  every object that existed stays as it was, and nothing else of the state changes. With
  \<open>None\<close> for the instance (access on the type itself) it returns the reference it was
  called on and leaves the state as it is: no receiver is bound.
\<close>

theorem get_binds_instance_or_returns_self:
  assumes "deref (heap s) self = Some w"
  shows "\<exists>r s'. LazyInjecting_get self instance owner s = Some (r, s') \<and>
     (if instance = PyNone then r = self \<and> s' = s
      else deref (heap s) r = None \<and>
           deref (heap s') r = Some \<lparr>func = func w, bound_self = instance\<rparr> \<and>
           (\<forall>r' x. deref (heap s) r' = Some x \<longrightarrow> deref (heap s') r' = Some x) \<and>
           di_container s' = di_container s \<and> store s' = store s \<and> trace s' = trace s)"
  using assms
  by (auto simp: LazyInjecting_get_def LazyInjecting_init_def deref_fresh deref_append)

theorem get_binds_instance_or_returns_self_witness:
  "deref (heap example_state) 0 = Some \<lparr>func = example_func, bound_self = PyNone\<rparr> \<and>
   LazyInjecting_get 0 PyNone (Obj 9) example_state = Some (0, example_state) \<and>
   (\<exists>r s'. LazyInjecting_get 0 (Obj 5) (Obj 9) example_state = Some (r, s') \<and> r \<noteq> 0 \<and>
      deref (heap s') r = Some \<lparr>func = example_func, bound_self = Obj 5\<rparr> \<and>
      deref (heap s') 0 = Some \<lparr>func = example_func, bound_self = PyNone\<rparr>)"
proof -
  let ?w = "\<lparr>func = example_func, bound_self = PyNone\<rparr> :: (string, nat, string, nat) LazyInjecting"
  have w: "deref (heap example_state) 0 = Some ?w"
    by (simp add: example_state_def deref_def)
  from get_binds_instance_or_returns_self [OF w, of PyNone "Obj 9"]
  have a: "LazyInjecting_get 0 PyNone (Obj 9) example_state = Some (0, example_state)"
    by auto
  from get_binds_instance_or_returns_self [OF w, of "Obj 5" "Obj 9"]
  obtain r s' where g: "LazyInjecting_get 0 (Obj 5) (Obj 9) example_state = Some (r, s')"
    and new: "deref (heap example_state) r = None"
    and obj: "deref (heap s') r = Some \<lparr>func = func ?w, bound_self = Obj 5\<rparr>"
    and old: "\<forall>r' x. deref (heap example_state) r' = Some x \<longrightarrow> deref (heap s') r' = Some x"
    by auto
  have "r \<noteq> 0"
  proof
    assume "r = 0"
    with new w show False by simp
  qed
  moreover from old w have "deref (heap s') 0 = Some ?w" by blast
  ultimately show ?thesis using w a g obj by auto
qed

text \<open>
  C6. With a container set and a signature that resolves, an invocation ends in one of
  two ways. Either every injectable parameter resolves, one lookup after the other, and
  the wrapped callable is then called once, with the keyword arguments of the call
  merged with the resolved values; its result, value or exception, is the result of the
  invocation. Or the lookup at some position \<open>i\<close> is the first to raise: the lookups
  before it succeeded, no later one is made, the wrapped callable is not called, and
  the exception of the container is the result, unchanged.
\<close>

theorem call_all_or_nothing:
  assumes "deref (heap s) self = Some w" and "di_container s = Some c"
    and "signature (func w) (store s) = Inr params" and "distinct (map name params)"
    and "injs = injectable_items (keys kwargs)
                 (drop (length args + (if bound_self w \<noteq> PyNone then 1 else 0)) params)"
    and "args' = (if bound_self w \<noteq> PyNone then bound_self w # args else args)"
  shows
   "(\<exists>vs st' kw. aget_all c (map snd injs) (store s) = (Inr vs, st') \<and>
       kw = dict_update (dict_update [] kwargs) (zip (map fst injs) vs) \<and>
       LazyInjecting_call self args kwargs s =
         Some (fst (body (func w) args' kw st'),
               s\<lparr>store := snd (body (func w) args' kw st'),
                 trace := trace s @ map Aget (map snd injs) @ [Invoke args' kw]\<rparr>)) \<or>
    (\<exists>i vs st\<^sub>i e st'. i < length injs \<and>
       aget_all c (take i (map snd injs)) (store s) = (Inr vs, st\<^sub>i) \<and>
       aget c (snd (injs ! i)) st\<^sub>i = (Inl e, st') \<and>
       LazyInjecting_call self args kwargs s =
         Some (Inl e, s\<lparr>store := st', trace := trace s @ map Aget (take (Suc i) (map snd injs))\<rparr>))"
  using call_cases [OF assms] by blast

theorem call_all_or_nothing_witness:
  "deref (heap example_state) 0 = Some \<lparr>func = example_func, bound_self = PyNone\<rparr> \<and>
   di_container example_state = Some example_container \<and>
   signature example_func (store example_state) = Inr example_parameters \<and>
   distinct (map name example_parameters) \<and>
   LazyInjecting_call 0 [Obj 1] [] example_state =
     Some (Inr (Obj 1),
           example_state\<lparr>store := 11,
             trace := [Aget ''Widget'', Invoke [Obj 1] [(''c'', Obj 7)]]\<rparr>)"
proof -
  let ?w = "\<lparr>func = example_func, bound_self = PyNone\<rparr> :: (string, nat, string, nat) LazyInjecting"
  have w: "deref (heap example_state) 0 = Some ?w"
    by (simp add: example_state_def deref_def)
  have c: "di_container example_state = Some example_container"
    by (simp add: example_state_def)
  have sig: "signature (func ?w) (store example_state) = Inr example_parameters"
    by (simp add: example_func_def)
  have dist: "distinct (map name example_parameters)"
    by (simp add: example_parameters_def)
  have injs: "[(''c'', ''Widget'')] = injectable_items (keys [])
      (drop (length [Obj (1::nat)] + (if bound_self ?w \<noteq> PyNone then 1 else 0)) example_parameters)"
    using example_items by (simp add: keys_def)
  have args: "[Obj (1::nat)] = (if bound_self ?w \<noteq> PyNone then bound_self ?w # [Obj 1] else [Obj 1])"
    by simp
  have st: "store example_state = 0" "trace example_state = []"
    by (simp_all add: example_state_def)
  from call_all_or_nothing [OF w c sig dist injs args]
  have "LazyInjecting_call 0 [Obj 1] [] example_state =
     Some (Inr (Obj 1),
           example_state\<lparr>store := 11,
             trace := [Aget ''Widget'', Invoke [Obj 1] [(''c'', Obj 7)]]\<rparr>)"
    by (auto simp: st example_container_def example_func_def)
  with w c sig dist show ?thesis by simp
qed

text \<open>
  C7. In one invocation (container set, signature resolving) the types asked of the
  container are the annotations of the injectable parameters in declaration order:
  all of them when every lookup succeeds, and otherwise the ones up to the first lookup
  that raises. The lookups run one after another (\<open>aget_all\<close>: each in the store the
  one before has left), and when all have succeeded the wrapped callable receives
  keyword arguments in which each injectable parameter's name holds the value that
  parameter's lookup returned.
\<close>

theorem call_resolves_in_declaration_order:
  assumes "deref (heap s) self = Some w" and "di_container s = Some c"
    and "signature (func w) (store s) = Inr params" and "distinct (map name params)"
    and "injs = injectable_items (keys kwargs)
                 (drop (length args + (if bound_self w \<noteq> PyNone then 1 else 0)) params)"
  shows "\<exists>r s' k. LazyInjecting_call self args kwargs s = Some (r, s') \<and> k \<le> length injs \<and>
           requested (trace s') = requested (trace s) @ take k (map snd injs) \<and>
           (case aget_all c (map snd injs) (store s) of
              (Inl e, st') \<Rightarrow> r = Inl e \<and> store s' = st' \<and> invocations (trace s') = invocations (trace s)
            | (Inr vs, st') \<Rightarrow>
                k = length injs \<and>
                (\<exists>args' kw. invocations (trace s') = invocations (trace s) @ [(args', kw)] \<and>
                   (\<forall>j<length injs. map_of kw (fst (injs ! j)) = Some (vs ! j))))"
proof -
  let ?args = "if bound_self w \<noteq> PyNone then bound_self w # args else args"
  have d: "distinct (map fst injs)"
    unfolding assms(5) using assms(4)
    by (intro distinct_injectable_items) (simp add: drop_map [symmetric])
  from call_cases [OF assms(1-5) refl] show ?thesis
  proof (elim disjE exE conjE)
    fix vs st' kw
    assume a: "aget_all c (map snd injs) (store s) = (Inr vs, st')"
      and kw: "kw = dict_update (dict_update [] kwargs) (zip (map fst injs) vs)"
      and call: "LazyInjecting_call self args kwargs s =
         Some (fst (body (func w) ?args kw st'),
               s\<lparr>store := snd (body (func w) ?args kw st'),
                 trace := trace s @ map Aget (map snd injs) @ [Invoke ?args kw]\<rparr>)"
    have len: "length vs = length (map fst injs)"
      using aget_all_length [OF a] by simp
    have "\<forall>j<length injs. map_of kw (fst (injs ! j)) = Some (vs ! j)"
    proof (intro allI impI)
      fix j assume j: "j < length injs"
      then have "map_of kw (map fst injs ! j) = Some (vs ! j)"
        unfolding kw using d len by (intro map_of_dict_update_zip) simp_all
      with j show "map_of kw (fst (injs ! j)) = Some (vs ! j)" by simp
    qed
    then have kws: "\<exists>args' kw'. invocations (trace s) @ [(?args, kw)] =
          invocations (trace s) @ [(args', kw')] \<and>
        (\<forall>j<length injs. map_of kw' (fst (injs ! j)) = Some (vs ! j))"
      by blast
    let ?s' = "s\<lparr>store := snd (body (func w) ?args kw st'),
                 trace := trace s @ map Aget (map snd injs) @ [Invoke ?args kw]\<rparr>"
    have "requested (trace ?s') = requested (trace s) @ take (length injs) (map snd injs)"
      by (simp del: map_map)
    moreover have "invocations (trace ?s') = invocations (trace s) @ [(?args, kw)]"
      by (simp del: map_map)
    ultimately show ?thesis
      using a call kws
      by (intro exI [of _ "fst (body (func w) ?args kw st')"] exI [of _ ?s']
            exI [of _ "length injs"] conjI) (simp_all del: map_map)
  next
    fix i vs st\<^sub>i e st'
    assume "i < length injs"
      and "aget_all c (map snd injs) (store s) = (Inl e, st')"
      and "LazyInjecting_call self args kwargs s =
         Some (Inl e, s\<lparr>store := st', trace := trace s @ map Aget (take (Suc i) (map snd injs))\<rparr>)"
    then have a: "aget_all c (map snd injs) (store s) = (Inl e, st')"
      and i: "Suc i \<le> length injs"
      and call: "LazyInjecting_call self args kwargs s =
         Some (Inl e, s\<lparr>store := st', trace := trace s @ map Aget (take (Suc i) (map snd injs))\<rparr>)"
      by simp_all
    let ?s' = "s\<lparr>store := st', trace := trace s @ map Aget (take (Suc i) (map snd injs))\<rparr>"
    have "requested (trace ?s') = requested (trace s) @ take (Suc i) (map snd injs)"
      by (simp del: map_map take_map)
    moreover have "invocations (trace ?s') = invocations (trace s)"
      by (simp del: map_map take_map)
    moreover have "store ?s' = st'" by simp
    ultimately show ?thesis
      using a i call
      by (intro exI [of _ "Inl e"] exI [of _ ?s'] exI [of _ "Suc i"] conjI)
        (simp_all only: prod.case sum.case simp_thms)
  qed
qed

theorem call_resolves_in_declaration_order_witness:
  "deref (heap counting_state) 0 = Some \<lparr>func = example_func, bound_self = PyNone\<rparr> \<and>
   di_container counting_state = Some counting_container \<and>
   signature example_func (store counting_state) = Inr example_parameters \<and>
   distinct (map name example_parameters) \<and>
   (\<exists>r s'. LazyInjecting_call 0 [] [] counting_state = Some (r, s') \<and>
      requested (trace s') = [''int'', ''Widget''] \<and>
      (\<exists>args' kw. invocations (trace s') = [(args', kw)] \<and>
         map_of kw ''a'' = Some (Obj 3) \<and> map_of kw ''c'' = Some (Obj 7)))"
proof -
  let ?w = "\<lparr>func = example_func, bound_self = PyNone\<rparr> :: (string, nat, string, nat) LazyInjecting"
  let ?injs = "[(''a'', ''int''), (''c'', ''Widget'')]"
  have w: "deref (heap counting_state) 0 = Some ?w"
    by (simp add: counting_state_def example_state_def deref_def)
  have c: "di_container counting_state = Some counting_container"
    by (simp add: counting_state_def)
  have sig: "signature (func ?w) (store counting_state) = Inr example_parameters"
    by (simp add: example_func_def)
  have dist: "distinct (map name example_parameters)"
    by (simp add: example_parameters_def)
  have injs: "?injs = injectable_items (keys ([] :: (string, nat pyobj) dict))
      (drop (length ([] :: nat pyobj list) + (if bound_self ?w \<noteq> PyNone then 1 else 0))
         example_parameters)"
    using example_items_all by (simp add: keys_def)
  have st: "store counting_state = 0" "trace counting_state = []"
    by (simp_all add: counting_state_def example_state_def)
  have run: "aget_all counting_container (map snd ?injs) 0 = (Inr [Obj 3, Obj 7], 2)"
    by (simp add: counting_container_def)
  from call_resolves_in_declaration_order [OF w c sig dist injs]
  obtain r s' k args' kw where
    call: "LazyInjecting_call 0 [] [] counting_state = Some (r, s')"
    and req: "requested (trace s') = take k (map snd ?injs)" and k: "k = length ?injs"
    and inv: "invocations (trace s') = [(args', kw)]"
    and kw: "\<forall>j<length ?injs. map_of kw (fst (?injs ! j)) = Some ([Obj 3, Obj 7] ! j)"
    unfolding st run by auto
  from kw have "0 < length ?injs \<longrightarrow> map_of kw (fst (?injs ! 0)) = Some ([Obj 3, Obj 7] ! 0)"
    and "1 < length ?injs \<longrightarrow> map_of kw (fst (?injs ! 1)) = Some ([Obj 3, Obj 7] ! 1)"
    by blast+
  then have "map_of kw ''a'' = Some (Obj 3)" and "map_of kw ''c'' = Some (Obj 7)"
    by simp_all
  with call req k inv w c sig dist show ?thesis by auto
qed




text \<open>
  C9. The two fields of a wrapper are set when it is built and not written afterwards,
  and the context variable is only read: calling a wrapper leaves the heap and the
  context variable as they were; \<open>__get__\<close> and the construction of a wrapper leave every
  existing wrapper and the context variable as they were, and a newly built wrapper
  holds the callable and the receiver it was built with.
\<close>

theorem wrapper_state_never_mutated:
  assumes "deref (heap s) self = Some w" and "deref (heap s) r = Some x"
  shows "(\<exists>res s'. LazyInjecting_call self args kwargs s = Some (res, s') \<and>
            heap s' = heap s \<and> di_container s' = di_container s) \<and>
         (\<exists>r' s'. LazyInjecting_get self instance owner s = Some (r', s') \<and>
            deref (heap s') r = Some x \<and> di_container s' = di_container s) \<and>
         (\<exists>y s'. LazyInjecting_new environ f receiver s = (y, s') \<and>
            deref (heap s') r = Some x \<and> di_container s' = di_container s \<and>
            (\<forall>r'. y = Wrapper r' \<longrightarrow>
               deref (heap s) r' = None \<and>
               deref (heap s') r' = Some \<lparr>func = f, bound_self = receiver\<rparr>))"
proof (intro conjI)
  show "\<exists>res s'. LazyInjecting_call self args kwargs s = Some (res, s') \<and>
            heap s' = heap s \<and> di_container s' = di_container s"
    by (rule call_frame [OF assms(1)])
  show "\<exists>r' s'. LazyInjecting_get self instance owner s = Some (r', s') \<and>
            deref (heap s') r = Some x \<and> di_container s' = di_container s"
    using assms
    by (auto simp: LazyInjecting_get_def LazyInjecting_init_def deref_append)
  show "\<exists>y s'. LazyInjecting_new environ f receiver s = (y, s') \<and>
            deref (heap s') r = Some x \<and> di_container s' = di_container s \<and>
            (\<forall>r'. y = Wrapper r' \<longrightarrow>
               deref (heap s) r' = None \<and>
               deref (heap s') r' = Some \<lparr>func = f, bound_self = receiver\<rparr>)"
    using assms(2)
    by (auto simp: LazyInjecting_new_def LazyInjecting_init_def FakeLazyInjecting_new_def
        deref_append deref_fresh)
qed

theorem wrapper_state_never_mutated_witness:
  "deref (heap example_state) 0 = Some \<lparr>func = example_func, bound_self = PyNone\<rparr> \<and>
   deref (heap example_state) 1 = Some \<lparr>func = example_method, bound_self = Obj 42\<rparr> \<and>
   (\<exists>res s'. LazyInjecting_call 0 [Obj 1] [] example_state = Some (res, s') \<and>
      heap s' = heap example_state \<and> di_container s' = Some example_container) \<and>
   (\<exists>r' s'. LazyInjecting_get 0 (Obj 5) (Obj 9) example_state = Some (r', s') \<and>
      deref (heap s') 1 = Some \<lparr>func = example_method, bound_self = Obj 42\<rparr> \<and>
      di_container s' = Some example_container) \<and>
   (\<exists>y s'. LazyInjecting_new Map.empty example_func (Obj 5) example_state = (y, s') \<and>
      deref (heap s') 1 = Some \<lparr>func = example_method, bound_self = Obj 42\<rparr> \<and>
      di_container s' = Some example_container)"
proof -
  have w: "deref (heap example_state) 0 = Some \<lparr>func = example_func, bound_self = PyNone\<rparr>"
    and x: "deref (heap example_state) 1 = Some \<lparr>func = example_method, bound_self = Obj 42\<rparr>"
    by (simp_all add: example_state_def deref_def)
  have c: "di_container example_state = Some example_container"
    by (simp add: example_state_def)
  from wrapper_state_never_mutated [OF w x, of "[Obj 1]" "[]" "Obj 5" "Obj 9" Map.empty
      example_func "Obj 5"]
  show ?thesis unfolding c using w x by blast
qed

text \<open>
  C10. A parameter of kind \<open>VAR_POSITIONAL\<close> or \<open>VAR_KEYWORD\<close> that carries an annotation
  (such a parameter never has a default) is in the injectable set for every count that
  does not skip it and every keyword set without its name: the filter on the kind
  excludes \<open>POSITIONAL_ONLY\<close> alone. An invocation that neither skips nor names it has
  it in its injectable set, and when every lookup succeeds, the result and the effect
  of the invocation are those of the wrapped callable applied to keyword arguments in
  which the parameter's name holds the value its lookup returned, as for any other
  injected parameter; when a lookup raises, its exception is the result.
\<close>

theorem variadic_parameters_are_injected:
  assumes w: "deref (heap s) self = Some w" and c: "di_container s = Some c"
    and sig: "signature (func w) (store s) = Inr params" and dist: "distinct (map name params)"
    and i: "i < length params"
    and kind: "kind (params ! i) = VAR_POSITIONAL \<or> kind (params ! i) = VAR_KEYWORD"
    and ann: "annotation (params ! i) = Some ty" and dflt: "default (params ! i) = None"
    and n: "length args + (if bound_self w \<noteq> PyNone then 1 else 0) \<le> i"
    and K: "name (params ! i) \<notin> keys kwargs"
  shows "(\<forall>N K'. 0 \<le> N \<and> N \<le> int i \<and> name (params ! i) \<notin> K' \<longrightarrow>
            (\<exists>m. find_injectable_kwargs (func w) N K' (store s) = Inr m \<and>
                 map_of m (name (params ! i)) = Some ty)) \<and>
         (\<exists>injs.
            find_injectable_kwargs (func w)
              (int (length args) + (if bound_self w \<noteq> PyNone then 1 else 0)) (keys kwargs)
              (store s) = Inr injs \<and>
            (case aget_all c (map snd injs) (store s) of
               (Inr vs, st') \<Rightarrow>
                 (\<exists>args' kw j.
                    args' = (if bound_self w \<noteq> PyNone then bound_self w # args else args) \<and>
                    kw = dict_update (dict_update [] kwargs) (zip (map fst injs) vs) \<and>
                    j < length injs \<and> injs ! j = (name (params ! i), ty) \<and>
                    map_of kw (name (params ! i)) = Some (vs ! j) \<and>
                    LazyInjecting_call self args kwargs s =
                      Some (fst (body (func w) args' kw st'),
                            s\<lparr>store := snd (body (func w) args' kw st'),
                              trace := trace s @ map Aget (map snd injs) @ [Invoke args' kw]\<rparr>))
             | (Inl e, st') \<Rightarrow>
                 (\<exists>k<length injs.
                    LazyInjecting_call self args kwargs s =
                      Some (Inl e,
                            s\<lparr>store := st',
                              trace := trace s @ map Aget (take (Suc k) (map snd injs))\<rparr>))))"
proof (rule conjI)
  show "\<forall>N K'. 0 \<le> N \<and> N \<le> int i \<and> name (params ! i) \<notin> K' \<longrightarrow>
            (\<exists>m. find_injectable_kwargs (func w) N K' (store s) = Inr m \<and>
                 map_of m (name (params ! i)) = Some ty)"
  proof (intro allI impI)
    fix N :: int and K' :: "string set"
    assume "0 \<le> N \<and> N \<le> int i \<and> name (params ! i) \<notin> K'"
    then have N: "0 \<le> N" "nat N \<le> i" and K': "name (params ! i) \<notin> K'" by auto
    let ?ps = "drop (nat N) params"
    have m: "find_injectable_kwargs (func w) N K' (store s) = Inr (injectable_items K' ?ps)"
      using find_injectable_kwargs_items [OF sig dist, of N K'] N
      by (simp add: slice_from_nonneg)
    have d: "distinct (map name ?ps)"
      using dist by (simp add: drop_map [symmetric])
    from i N have "params ! i = ?ps ! (i - nat N)" "i - nat N < length ?ps" by auto
    then have "params ! i \<in> set ?ps" by (metis nth_mem)
    with d have "map_of (injectable_items K' ?ps) (name (params ! i)) =
        (if injectable K' (params ! i) then annotation (params ! i) else None)"
      by (rule map_of_injectable_items)
    moreover have "injectable K' (params ! i)"
      using kind ann dflt K' by (auto simp: injectable_def)
    ultimately show "\<exists>m. find_injectable_kwargs (func w) N K' (store s) = Inr m \<and>
        map_of m (name (params ! i)) = Some ty"
      using m ann by simp
  qed
next
  let ?n = "length args + (if bound_self w \<noteq> PyNone then 1 else 0)"
  let ?ps = "drop ?n params"
  let ?injs = "injectable_items (keys kwargs) ?ps"
  let ?args = "if bound_self w \<noteq> PyNone then bound_self w # args else args"
  have f: "find_injectable_kwargs (func w)
       (int (length args) + (if bound_self w \<noteq> PyNone then 1 else 0)) (keys kwargs) (store s) =
       Inr ?injs"
    by (rule call_analyzer [OF sig dist])
  have d: "distinct (map name ?ps)"
    using dist by (simp add: drop_map [symmetric])
  then have dk: "distinct (map fst ?injs)"
    by (rule distinct_injectable_items)
  from i n have "params ! i = ?ps ! (i - ?n)" "i - ?n < length ?ps" by auto
  then have "params ! i \<in> set ?ps" by (metis nth_mem)
  with d have "map_of ?injs (name (params ! i)) =
      (if injectable (keys kwargs) (params ! i) then annotation (params ! i) else None)"
    by (rule map_of_injectable_items)
  moreover have "injectable (keys kwargs) (params ! i)"
    using kind ann dflt K by (auto simp: injectable_def)
  ultimately have "map_of ?injs (name (params ! i)) = Some ty"
    using ann by simp
  then have "(name (params ! i), ty) \<in> set ?injs"
    by (rule map_of_SomeD)
  then obtain j where j: "j < length ?injs" "?injs ! j = (name (params ! i), ty)"
    by (auto simp: in_set_conv_nth)
  have main: "case aget_all c (map snd ?injs) (store s) of
       (Inr vs, st') \<Rightarrow>
         (\<exists>args' kw j.
            args' = (if bound_self w \<noteq> PyNone then bound_self w # args else args) \<and>
            kw = dict_update (dict_update [] kwargs) (zip (map fst ?injs) vs) \<and>
            j < length ?injs \<and> ?injs ! j = (name (params ! i), ty) \<and>
            map_of kw (name (params ! i)) = Some (vs ! j) \<and>
            LazyInjecting_call self args kwargs s =
              Some (fst (body (func w) args' kw st'),
                    s\<lparr>store := snd (body (func w) args' kw st'),
                      trace := trace s @ map Aget (map snd ?injs) @ [Invoke args' kw]\<rparr>))
     | (Inl e, st') \<Rightarrow>
         (\<exists>k<length ?injs.
            LazyInjecting_call self args kwargs s =
              Some (Inl e,
                    s\<lparr>store := st',
                      trace := trace s @ map Aget (take (Suc k) (map snd ?injs))\<rparr>))"
    using call_cases [OF w c sig dist refl refl, where kwargs = kwargs and args = args]
  proof (elim disjE exE conjE)
    fix vs st' kw
    assume a: "aget_all c (map snd ?injs) (store s) = (Inr vs, st')"
      and kw: "kw = dict_update (dict_update [] kwargs) (zip (map fst ?injs) vs)"
      and call: "LazyInjecting_call self args kwargs s =
         Some (fst (body (func w) ?args kw st'),
               s\<lparr>store := snd (body (func w) ?args kw st'),
                 trace := trace s @ map Aget (map snd ?injs) @ [Invoke ?args kw]\<rparr>)"
    have len: "length vs = length (map fst ?injs)"
      using aget_all_length [OF a] by simp
    have "map_of kw (map fst ?injs ! j) = Some (vs ! j)"
      unfolding kw using dk len j(1) by (intro map_of_dict_update_zip) simp_all
    with j have "map_of kw (name (params ! i)) = Some (vs ! j)" by simp
    with kw j call show ?thesis
      by (simp only: a prod.case sum.case) blast
  next
    fix k vs st\<^sub>i e st'
    assume "k < length ?injs"
      and a: "aget_all c (map snd ?injs) (store s) = (Inl e, st')"
      and "LazyInjecting_call self args kwargs s =
         Some (Inl e, s\<lparr>store := st', trace := trace s @ map Aget (take (Suc k) (map snd ?injs))\<rparr>)"
    then show ?thesis
      by (simp only: a prod.case sum.case) blast
  qed
  show "\<exists>injs.
            find_injectable_kwargs (func w)
              (int (length args) + (if bound_self w \<noteq> PyNone then 1 else 0)) (keys kwargs)
              (store s) = Inr injs \<and>
            (case aget_all c (map snd injs) (store s) of
               (Inr vs, st') \<Rightarrow>
                 (\<exists>args' kw j.
                    args' = (if bound_self w \<noteq> PyNone then bound_self w # args else args) \<and>
                    kw = dict_update (dict_update [] kwargs) (zip (map fst injs) vs) \<and>
                    j < length injs \<and> injs ! j = (name (params ! i), ty) \<and>
                    map_of kw (name (params ! i)) = Some (vs ! j) \<and>
                    LazyInjecting_call self args kwargs s =
                      Some (fst (body (func w) args' kw st'),
                            s\<lparr>store := snd (body (func w) args' kw st'),
                              trace := trace s @ map Aget (map snd injs) @ [Invoke args' kw]\<rparr>))
             | (Inl e, st') \<Rightarrow>
                 (\<exists>k<length injs.
                    LazyInjecting_call self args kwargs s =
                      Some (Inl e,
                            s\<lparr>store := st',
                              trace := trace s @ map Aget (take (Suc k) (map snd injs))\<rparr>)))"
  proof (rule exI [of _ ?injs], rule conjI)
    show "find_injectable_kwargs (func w)
       (int (length args) + (if bound_self w \<noteq> PyNone then 1 else 0)) (keys kwargs) (store s) =
       Inr ?injs"
      by (rule f)
  qed (rule main)
qed

theorem variadic_parameters_are_injected_witness:
  "deref (heap variadic_state) 0 = Some \<lparr>func = variadic_func, bound_self = PyNone\<rparr> \<and>
   di_container variadic_state = Some example_container \<and>
   signature variadic_func (store variadic_state) = Inr variadic_parameters \<and>
   kind (variadic_parameters ! 0) = VAR_POSITIONAL \<and>
   (\<exists>m. find_injectable_kwargs variadic_func 0 {} (store variadic_state) = Inr m \<and>
        map_of m ''args'' = Some ''Widget'') \<and>
   LazyInjecting_call 0 [] [] variadic_state =
     Some (Inr (Obj 2),
           variadic_state\<lparr>store := 21,
             trace := [Aget ''Widget'', Aget ''Widget'',
                       Invoke [] [(''args'', Obj 7), (''opts'', Obj 7)]]\<rparr>)"
proof -
  let ?w = "\<lparr>func = variadic_func, bound_self = PyNone\<rparr> :: (string, nat, string, nat) LazyInjecting"
  have w: "deref (heap variadic_state) 0 = Some ?w"
    by (simp add: variadic_state_def deref_def)
  have c: "di_container variadic_state = Some example_container"
    by (simp add: variadic_state_def)
  have sig: "signature (func ?w) (store variadic_state) = Inr variadic_parameters"
    by (simp add: variadic_func_def)
  have dist: "distinct (map name variadic_parameters)"
    by (simp add: variadic_parameters_def)
  have i: "0 < length variadic_parameters"
    by (simp add: variadic_parameters_def)
  have kind: "kind (variadic_parameters ! 0) = VAR_POSITIONAL \<or>
      kind (variadic_parameters ! 0) = VAR_KEYWORD"
    and kind0: "kind (variadic_parameters ! 0) = VAR_POSITIONAL"
    and ann: "annotation (variadic_parameters ! 0) = Some ''Widget''"
    and dflt: "default (variadic_parameters ! 0) = None"
    and nm: "name (variadic_parameters ! 0) = ''args''"
    by (simp_all add: variadic_parameters_def)
  have n: "length ([] :: nat pyobj list) + (if bound_self ?w \<noteq> PyNone then 1 else 0) \<le> 0"
    by simp
  have K: "name (variadic_parameters ! 0) \<notin> keys ([] :: (string, nat pyobj) dict)"
    by (simp add: keys_def)
  have st: "store variadic_state = 0" "trace variadic_state = []"
    by (simp_all add: variadic_state_def)
  have f': "find_injectable_kwargs (func ?w)
       (int (length ([] :: nat pyobj list)) + (if bound_self ?w \<noteq> PyNone then 1 else 0))
       (keys ([] :: (string, nat pyobj) dict)) (store variadic_state) =
      Inr [(''args'', ''Widget''), (''opts'', ''Widget'')]"
    by (simp add: find_injectable_kwargs_def slice_from_def variadic_func_def
        variadic_parameters_def keys_def)
  note inst = variadic_parameters_are_injected [OF w c sig dist i kind ann dflt n K]
  from inst have "0 \<le> (0::int) \<and> (0::int) \<le> int 0 \<and> name (variadic_parameters ! 0) \<notin> {} \<longrightarrow>
      (\<exists>m. find_injectable_kwargs (func ?w) 0 {} (store variadic_state) = Inr m \<and>
           map_of m (name (variadic_parameters ! 0)) = Some ''Widget'')"
    by blast
  then have a: "\<exists>m. find_injectable_kwargs variadic_func 0 {} (store variadic_state) = Inr m \<and>
      map_of m ''args'' = Some ''Widget''"
    by (simp add: nm)
  from inst [unfolded f'] have b: "LazyInjecting_call 0 [] [] variadic_state =
     Some (Inr (Obj 2),
           variadic_state\<lparr>store := 21,
             trace := [Aget ''Widget'', Aget ''Widget'',
                       Invoke [] [(''args'', Obj 7), (''opts'', Obj 7)]]\<rparr>)"
    by (auto simp: st nm example_container_def variadic_func_def numeral_2_eq_2)
  from w c sig kind0 a b show ?thesis
    by (simp add: variadic_func_def)
qed

end
